theory Spec2Isabelle
  imports Main "HOL-Library.Word"
begin

unbundle bit_operations_syntax

section \<open>Values shared by the handlers\<close>

text \<open>
  The registration server keeps its invites in one in-memory object, decodes a merchant's
  public-key identifier with \<open>npubToHex\<close>, and answers every request with a status and a
  JSON body. Strings are lists of characters; a JavaScript exception is a value of
  \<open>js_error\<close> carrying its message.
\<close>

datatype js_error = Error string | TypeError string

primrec message :: "js_error \<Rightarrow> string" where
  "message (Error m) = m"
| "message (TypeError m) = m"

section \<open>The identity codec: \<open>npubToHex\<close>\<close>

definition CHARSET :: string where
  "CHARSET = ''qpzry9x8gf2tvdw0s3jn54khce6mua7l''"

text \<open>\<open>CHARSET.indexOf(c)\<close>: the first position of \<open>c\<close>, \<open>None\<close> where JavaScript gives \<open>-1\<close>.\<close>

fun indexOf :: "string \<Rightarrow> char \<Rightarrow> nat option" where
  "indexOf [] c = None"
| "indexOf (x # xs) c = (if x = c then Some 0 else map_option Suc (indexOf xs c))"

definition startsWith :: "string \<Rightarrow> string \<Rightarrow> bool" where
  "startsWith s p = (take (length p) s = p)"

text \<open>The first loop of \<open>npubToHex\<close>: one value per character, an exception at the first
  character outside the alphabet.\<close>

fun decode_chars :: "string \<Rightarrow> nat list \<Rightarrow> js_error + nat list" where
  "decode_chars [] values = Inr values"
| "decode_chars (c # data) values =
     (case indexOf CHARSET c of
        None \<Rightarrow> Inl (Error ''Invalid npub character'')
      | Some v \<Rightarrow> decode_chars data (values @ [v]))"

text \<open>
  The second loop. JavaScript's \<open><<\<close>, \<open>|\<close>, \<open>>>\<close> and \<open>&\<close> work on 32-bit signed
  integers, so \<open>acc\<close> is a 32-bit word: \<open>acc << 5\<close> loses the bits shifted out at the top,
  \<open>>>\<close> is the sign-propagating shift and takes its count modulo 32. \<open>emit_bytes\<close> is the
  inner \<open>while (bits >= 8)\<close>.
\<close>

function emit_bytes :: "32 word \<Rightarrow> nat \<Rightarrow> nat list \<Rightarrow> nat \<times> nat list" where
  "emit_bytes acc bits bytes =
     (if bits \<ge> 8
      then emit_bytes acc (bits - 8)
             (bytes @ [unat (signed_drop_bit ((bits - 8) mod 32) acc AND 0xff)])
      else (bits, bytes))"
  by pat_completeness auto
termination
  by (relation "measure (\<lambda>(acc, bits, bytes). bits)") auto

declare emit_bytes.simps [simp del]

fun convert_bits :: "nat list \<Rightarrow> 32 word \<Rightarrow> nat \<Rightarrow> nat list \<Rightarrow> nat list" where
  "convert_bits [] acc bits bytes = bytes"
| "convert_bits (v # vs) acc bits bytes =
     (let acc' = push_bit 5 acc OR word_of_nat v
      in case emit_bytes acc' (bits + 5) bytes of
           (bits', bytes') \<Rightarrow> convert_bits vs acc' bits' bytes')"

text \<open>\<open>b.toString(16).padStart(2, '0')\<close>, joined over the bytes.\<close>

definition hexDigit :: "nat \<Rightarrow> char" where
  "hexDigit d = ''0123456789abcdef'' ! d"

function toString16 :: "nat \<Rightarrow> string" where
  "toString16 n =
     (if n < 16 then [hexDigit n] else toString16 (n div 16) @ [hexDigit (n mod 16)])"
  by pat_completeness auto
termination
  by (relation "measure id") auto

declare toString16.simps [simp del]

definition padStart2 :: "string \<Rightarrow> string" where
  "padStart2 s = replicate (2 - length s) CHR ''0'' @ s"

definition bytesToHex :: "nat list \<Rightarrow> string" where
  "bytesToHex bytes = concat (map (\<lambda>b. padStart2 (toString16 b)) bytes)"

text \<open>\<open>values.slice(0, -6)\<close> keeps all but the last six values, and nothing of a list
  shorter than six.\<close>

definition npubToHex :: "string \<Rightarrow> js_error + string" where
  "npubToHex npub =
     (if startsWith npub ''npub1''
      then case decode_chars (drop 5 npub) [] of
             Inl e \<Rightarrow> Inl e
           | Inr values \<Rightarrow>
               Inr (bytesToHex (convert_bits (take (length values - 6) values) 0 0 []))
      else Inr npub)"

subsection \<open>The decoding as the specification words it\<close>

text \<open>
  The specification describes the decoding without an accumulator: every character after
  the prefix stands for its position in the alphabet, a 5-bit value; the last six values
  are dropped; the bits of the others, most significant first, are cut into bytes, and
  the bits left over after the last full byte are discarded.
\<close>

definition char_value :: "char \<Rightarrow> nat" where
  "char_value c = length (takeWhile (\<lambda>x. x \<noteq> c) CHARSET)"

definition value_bits :: "nat \<Rightarrow> bool list" where
  "value_bits v = map (bit v) (rev [0..<5])"

primrec bits_nat :: "bool list \<Rightarrow> nat" where
  "bits_nat [] = 0"
| "bits_nat (b # bs) = of_bool b * 2 ^ length bs + bits_nat bs"

function pack_bytes :: "bool list \<Rightarrow> nat list" where
  "pack_bytes bs =
     (if length bs < 8 then [] else bits_nat (take 8 bs) # pack_bytes (drop 8 bs))"
  by pat_completeness auto
termination
  by (relation "measure length") auto

declare pack_bytes.simps [simp del]

definition hex2 :: "nat \<Rightarrow> string" where
  "hex2 b = [hexDigit (b div 16), hexDigit (b mod 16)]"

definition decode_spec :: "string \<Rightarrow> string" where
  "decode_spec npub =
     (let values = map char_value (drop 5 npub);
          payload = rev (drop 6 (rev values))
      in concat (map hex2 (pack_bytes (concat (map value_bits payload)))))"

definition isHexChar :: "char \<Rightarrow> bool" where
  "isHexChar c = (c \<in> set ''0123456789abcdefABCDEF'')"

definition generator_npub :: string where
  "generator_npub = ''npub10xlxvlhemja6c4dqv22uapctqupfhlxm9h8z3k2e72q4k9hcz7vqpkge6d''"

definition generator_hex :: string where
  "generator_hex = ''79be667ef9dcbbac55a06295ce870b07029bfcdb2dce28d959f2815b16f81798''"

section \<open>The invite store and the HTTP handlers\<close>

text \<open>
  An invite is created with \<open>label\<close>, \<open>createdAt\<close> and \<open>used: false\<close>; \<open>usedBy\<close> and
  \<open>usedAt\<close> are absent until a registration sets them. The store \<open>invites\<close> holds the
  records as its own properties, one per token; a token is the hexadecimal form of 16
  random bytes.
\<close>

record invite_record =
  label :: string
  createdAt :: int
  used :: bool
  usedBy :: "string option"
  usedAt :: "int option"

type_synonym invite_store = "string \<rightharpoonup> invite_record"

text \<open>
  \<open>parseBody\<close> rejects with \<open>Invalid JSON\<close>, or resolves to the parsed value: \<open>null\<close>, or
  an object whose properties are strings where present (\<open>None\<close> is an absent property).
\<close>

datatype 'a parsed = InvalidJSON | JsonNull | Parsed 'a

type_synonym create_body = "string option"

record register_body =
  invite :: "string option"
  storeName :: "string option"
  npub :: "string option"
  wooUrl :: "string option"
  email :: "string option"

definition truthy :: "string option \<Rightarrow> bool" where
  "truthy v = (case v of None \<Rightarrow> False | Some s \<Rightarrow> s \<noteq> [])"

definition text_of :: "string option \<Rightarrow> string" where
  "text_of v = (case v of None \<Rightarrow> [] | Some s \<Rightarrow> s)"

datatype payload =
    ErrorBody string
  | InviteCreated string string
  | InviteList invite_store
  | Registered string string
  | HealthOk

datatype response = jsonResponse nat payload

primrec status :: "response \<Rightarrow> nat" where
  "status (jsonResponse st d) = st"

text \<open>\<open>process.env.LISTENER_TOKEN || ''\<close>: the empty string when the variable is unset.\<close>

definition LISTENER_TOKEN :: "string option \<Rightarrow> string" where
  "LISTENER_TOKEN env = (if truthy env then text_of env else [])"

text \<open>
  \<open>req.headers.authorization\<close> is absent when the request has no such header line.
  Otherwise it is the value of the line as Node's HTTP parser delivers it: without the
  spaces and tabs before and after it, which are not part of a header value.
\<close>

definition is_ows :: "char \<Rightarrow> bool" where
  "is_ows c = (c = CHR '' '' \<or> c = CHR 0x09)"

definition header_value :: "string \<Rightarrow> string" where
  "header_value line = rev (dropWhile is_ows (rev (dropWhile is_ows line)))"

text \<open>The admin check of both invite routes answers 401 unless the header is present,
  non-empty and equal to \<open>Bearer \<close> followed by the token.\<close>

definition authorized :: "string option \<Rightarrow> string \<Rightarrow> bool" where
  "authorized auth token = (truthy auth \<and> auth = Some (''Bearer '' @ token))"

definition quoted :: "string \<Rightarrow> string" where
  "quoted s = [CHR 0x27] @ s @ [CHR 0x27]"

text \<open>\<open>invites[token] = {...}\<close> gives the store an own property; a token of hexadecimal
  digits is never \<open>__proto__\<close>, the one name for which an assignment would do otherwise.\<close>

definition post_invites ::
  "string \<Rightarrow> string option \<Rightarrow> create_body parsed \<Rightarrow> string \<Rightarrow> int \<Rightarrow> invite_store
     \<Rightarrow> invite_store \<times> response" where
  "post_invites adminToken auth body token now invites =
     (if authorized auth adminToken
      then case body of
             InvalidJSON \<Rightarrow> (invites, jsonResponse 400 (ErrorBody ''Invalid JSON''))
           | JsonNull \<Rightarrow>
               (invites, jsonResponse 400
                  (ErrorBody (''Cannot read properties of null (reading '' @ quoted ''label'' @ '')'')))
           | Parsed lbl \<Rightarrow>
               (invites(token \<mapsto>
                  \<lparr>label = (if truthy lbl then text_of lbl else []), createdAt = now,
                   used = False, usedBy = None, usedAt = None\<rparr>),
                jsonResponse 200
                  (InviteCreated token (''https://nostr.bitcoinbutlers.com?invite='' @ token)))
      else (invites, jsonResponse 401 (ErrorBody ''Unauthorized'')))"

definition get_invites :: "string \<Rightarrow> string option \<Rightarrow> invite_store \<Rightarrow> response" where
  "get_invites adminToken auth invites =
     (if authorized auth adminToken then jsonResponse 200 (InviteList invites)
      else jsonResponse 401 (ErrorBody ''Unauthorized''))"

subsection \<open>Registration\<close>

text \<open>
  \<open>registerOnListener\<close> posts the merchant to the listener and awaits the answer. The
  call is what it sends; the reply is what comes back: an acknowledgement, a response
  that is not \<open>ok\<close> (status and body text), or a failure of the fetch itself.
\<close>

datatype listener_call = ListenerCall string string string string

primrec call_name :: "listener_call \<Rightarrow> string" where
  "call_name (ListenerCall pubkeyHex nm webhookUrl webhookSecret) = nm"

primrec call_webhookUrl :: "listener_call \<Rightarrow> string" where
  "call_webhookUrl (ListenerCall pubkeyHex nm webhookUrl webhookSecret) = webhookUrl"

primrec call_webhookSecret :: "listener_call \<Rightarrow> string" where
  "call_webhookSecret (ListenerCall pubkeyHex nm webhookUrl webhookSecret) = webhookSecret"

datatype listener_reply = Acked | NotOk nat string | Failed string

definition decDigit :: "nat \<Rightarrow> char" where
  "decDigit d = ''0123456789'' ! d"

function toString10 :: "nat \<Rightarrow> string" where
  "toString10 n =
     (if n < 10 then [decDigit n] else toString10 (n div 10) @ [decDigit (n mod 10)])"
  by pat_completeness auto
termination
  by (relation "measure id") auto

declare toString10.simps [simp del]

definition registerOnListener :: "listener_reply \<Rightarrow> js_error + unit" where
  "registerOnListener reply =
     (case reply of
        Acked \<Rightarrow> Inr ()
      | NotOk st err \<Rightarrow>
          Inl (Error (''Listener registration failed: '' @ toString10 st @ '' '' @ err))
      | Failed m \<Rightarrow> Inl (Error m))"

text \<open>\<open>body.wooUrl.replace(/\/$/, '')\<close> removes one slash at the end of the string.\<close>

definition stripTrailingSlash :: "string \<Rightarrow> string" where
  "stripTrailingSlash s = (if s \<noteq> [] \<and> last s = CHR ''/'' then butlast s else s)"

subsection \<open>What \<open>invites[body.invite]\<close> finds\<close>

text \<open>
  \<open>invites\<close> is a plain object, so \<open>invites[k]\<close> finds an own property of the store or,
  failing that, a property inherited from \<open>Object.prototype\<close>: one of its functions,
  \<open>__proto__\<close> (which is \<open>Object.prototype\<close> itself), or a property that a registration
  has written onto \<open>Object.prototype\<close>. Lines 221 to 223 write \<open>used\<close>, \<open>usedBy\<close> and
  \<open>usedAt\<close> onto whatever object the lookup finds, so besides the store there is the mark
  (\<open>usedBy\<close> and \<open>usedAt\<close>; \<open>used\<close> is \<open>true\<close> once they are written) that each of these
  objects carries.
\<close>

definition PROTOTYPE_FUNCTIONS :: "string list" where
  "PROTOTYPE_FUNCTIONS =
     [''constructor'', ''__defineGetter__'', ''__defineSetter__'', ''hasOwnProperty'',
      ''__lookupGetter__'', ''__lookupSetter__'', ''isPrototypeOf'', ''propertyIsEnumerable'',
      ''toString'', ''valueOf'', ''toLocaleString'']"

type_synonym mark = "(string \<times> int) option"

record inherited =
  prototype_mark :: mark
  function_mark :: "string \<Rightarrow> mark"

definition clean_prototype :: inherited where
  "clean_prototype = \<lparr>prototype_mark = None, function_mark = (\<lambda>f. None)\<rparr>"

definition marked :: "mark \<Rightarrow> bool" where
  "marked m = (case m of None \<Rightarrow> False | Some x \<Rightarrow> True)"

text \<open>What a lookup finds: a record of the store, a function of \<open>Object.prototype\<close>,
  \<open>Object.prototype\<close> itself, or a primitive value, of which only the truthiness matters.\<close>

datatype target = OwnRecord invite_record | BuiltinFunction string | ObjectPrototype | Primitive bool

definition lookup :: "inherited \<Rightarrow> invite_store \<Rightarrow> string \<Rightarrow> target option" where
  "lookup p invites k =
     (case invites k of
        Some r \<Rightarrow> Some (OwnRecord r)
      | None \<Rightarrow>
          if k \<in> set PROTOTYPE_FUNCTIONS then Some (BuiltinFunction k)
          else if k = ''__proto__'' then Some ObjectPrototype
          else (case prototype_mark p of
                  None \<Rightarrow> None
                | Some (shop, time) \<Rightarrow>
                    if k = ''used'' then Some (Primitive True)
                    else if k = ''usedBy'' then Some (Primitive (shop \<noteq> []))
                    else if k = ''usedAt'' then Some (Primitive (time \<noteq> 0))
                    else None))"

definition target_truthy :: "target \<Rightarrow> bool" where
  "target_truthy tg = (case tg of Primitive b \<Rightarrow> b | _ \<Rightarrow> True)"

text \<open>The property \<open>used\<close> of what was found: a record has its own; a function has its own
  once marked and inherits that of \<open>Object.prototype\<close> otherwise, as a primitive does.\<close>

definition target_used :: "inherited \<Rightarrow> target \<Rightarrow> bool" where
  "target_used p tg =
     (case tg of
        OwnRecord r \<Rightarrow> used r
      | BuiltinFunction f \<Rightarrow> marked (function_mark p f) \<or> marked (prototype_mark p)
      | ObjectPrototype \<Rightarrow> marked (prototype_mark p)
      | Primitive b \<Rightarrow> marked (prototype_mark p))"

text \<open>\<open>!body.invite || !invites[body.invite]\<close> fails exactly when this lookup finds nothing.\<close>

definition find_invite :: "inherited \<Rightarrow> invite_store \<Rightarrow> string option \<Rightarrow> target option" where
  "find_invite p invites tok =
     (if truthy tok
      then case lookup p invites (text_of tok) of
             None \<Rightarrow> None
           | Some tg \<Rightarrow> if target_truthy tg then Some tg else None
      else None)"

text \<open>
  Lines 221 to 223, \<open>invites[k].used = true\<close> and the two assignments after it. \<open>None\<close> is
  the \<open>TypeError\<close> of assigning to a property of \<open>undefined\<close>; an assignment to a property
  of a primitive value does nothing.
\<close>

definition mark_used ::
  "inherited \<Rightarrow> invite_store \<Rightarrow> string \<Rightarrow> string \<Rightarrow> int \<Rightarrow> (inherited \<times> invite_store) option" where
  "mark_used p invites k shop now =
     (case lookup p invites k of
        None \<Rightarrow> None
      | Some (OwnRecord r) \<Rightarrow>
          Some (p, invites(k \<mapsto> r\<lparr>used := True, usedBy := Some shop, usedAt := Some now\<rparr>))
      | Some (BuiltinFunction f) \<Rightarrow>
          Some (p\<lparr>function_mark := (function_mark p)(f := Some (shop, now))\<rparr>, invites)
      | Some ObjectPrototype \<Rightarrow> Some (p\<lparr>prototype_mark := Some (shop, now)\<rparr>, invites)
      | Some (Primitive b) \<Rightarrow> Some (p, invites))"

subsection \<open>The two pieces of a registration\<close>

text \<open>
  The handler of \<open>POST /api/register\<close> runs in two pieces. \<open>register_validate\<close> is the
  piece from the parsed body to the call of \<open>registerOnListener\<close>: it answers at once, or
  hands over the invite token and the call it sends. The webhook secret is the value
  \<open>crypto.randomBytes(32)\<close> gives, drawn only when every check has passed.
\<close>

definition register_validate ::
  "inherited \<Rightarrow> invite_store \<Rightarrow> register_body parsed \<Rightarrow> string
     \<Rightarrow> response + (string \<times> listener_call)" where
  "register_validate p invites body webhookSecret =
     (case body of
        InvalidJSON \<Rightarrow> Inl (jsonResponse 500 (ErrorBody ''Invalid JSON''))
      | JsonNull \<Rightarrow>
          Inl (jsonResponse 500
            (ErrorBody (''Cannot read properties of null (reading '' @ quoted ''invite'' @ '')'')))
      | Parsed b \<Rightarrow>
          (case find_invite p invites (invite b) of
             None \<Rightarrow> Inl (jsonResponse 403 (ErrorBody ''Invalid or expired invite''))
           | Some tg \<Rightarrow>
               if target_used p tg then Inl (jsonResponse 403 (ErrorBody ''Invite already used''))
               else if truthy (npub b) \<and> truthy (wooUrl b) \<and> truthy (storeName b)
               then case npubToHex (text_of (npub b)) of
                      Inl e \<Rightarrow> Inl (jsonResponse 400 (ErrorBody ''Invalid npub format''))
                    | Inr pubkeyHex \<Rightarrow>
                        if length pubkeyHex = 64
                        then Inr (text_of (invite b),
                                  ListenerCall pubkeyHex (text_of (storeName b))
                                    (stripTrailingSlash (text_of (wooUrl b))
                                       @ ''/wp-json/woo-nostr-market/v1/order-webhook'')
                                    webhookSecret)
                        else Inl (jsonResponse 400
                               (ErrorBody ''Invalid npub: decoded key is wrong length''))
               else Inl (jsonResponse 400
                      (ErrorBody ''Missing required fields: npub, wooUrl, storeName''))))"

text \<open>
  \<open>register_complete\<close> is the piece after \<open>await registerOnListener(...)\<close>: an exception
  of the call is answered with 500 and its message; otherwise the invite is marked and
  the credentials are returned. \<open>now\<close> is what \<open>Date.now()\<close> returns there.
\<close>

definition register_complete ::
  "inherited \<Rightarrow> invite_store \<Rightarrow> string \<Rightarrow> listener_call \<Rightarrow> listener_reply \<Rightarrow> int
     \<Rightarrow> inherited \<times> invite_store \<times> response" where
  "register_complete p invites tok call reply now =
     (case registerOnListener reply of
        Inl e \<Rightarrow> (p, invites, jsonResponse 500 (ErrorBody (message e)))
      | Inr u \<Rightarrow>
          (case mark_used p invites tok (call_name call) now of
             None \<Rightarrow>
               (p, invites, jsonResponse 500
                  (ErrorBody (''Cannot set properties of undefined (setting '' @ quoted ''used'' @ '')'')))
           | Some (p', invites') \<Rightarrow>
               (p', invites',
                jsonResponse 200 (Registered (call_webhookUrl call) (call_webhookSecret call)))))"

text \<open>
  One registration with no other request handled between its two pieces: the state
  after it, the response, and the calls sent to the listener. A server that handles
  several requests runs the pieces as \<open>step\<close> below does.
\<close>

definition post_register ::
  "inherited \<Rightarrow> invite_store \<Rightarrow> register_body parsed \<Rightarrow> string \<Rightarrow> listener_reply \<Rightarrow> int
     \<Rightarrow> inherited \<times> invite_store \<times> response \<times> listener_call list" where
  "post_register p invites body webhookSecret reply now =
     (case register_validate p invites body webhookSecret of
        Inl r \<Rightarrow> (p, invites, r, [])
      | Inr c \<Rightarrow>
          (case register_complete p invites (fst c) (snd c) reply now of
             (p', invites', r) \<Rightarrow> (p', invites', r, [snd c])))"

subsection \<open>The server as the event loop runs it\<close>

text \<open>
  Node runs one piece of a handler at a time and switches between requests only at an
  \<open>await\<close>. The store is read and written in the pieces above, so a run of the server is
  a sequence of events, each handled in one go: an invite request (with its
  \<open>Authorization\<close> header line, if it has one), a registration arriving (its body parsed),
  or the listener's reply to a registration that is waiting for it (counted from the
  oldest). \<open>sent\<close> records every call made to the listener.
\<close>

record server =
  invites :: invite_store
  proto :: inherited
  awaiting :: "(string \<times> listener_call) list"
  sent :: "listener_call list"

datatype event =
    PostInvites "string option" "create_body parsed" string int
  | GetInvites "string option"
  | PostRegister "register_body parsed" string
  | ListenerReply nat listener_reply int
  | GetHealth

text \<open>\<open>loadInvites\<close> starts the server on the invites of the snapshot file; without a file
  the store is empty. In a new process nothing outside the store is marked.\<close>

definition start_server :: "invite_store \<Rightarrow> server" where
  "start_server loaded =
     \<lparr>invites = loaded, proto = clean_prototype, awaiting = [], sent = []\<rparr>"

definition init_server :: server where
  "init_server = start_server Map.empty"

fun step :: "string \<Rightarrow> event \<Rightarrow> server \<Rightarrow> server \<times> response option" where
  "step adminToken (PostInvites line body token now) s =
     (case post_invites adminToken (map_option header_value line) body token now (invites s) of
        (invites', r) \<Rightarrow> (s\<lparr>invites := invites'\<rparr>, Some r))"
| "step adminToken (GetInvites line) s =
     (s, Some (get_invites adminToken (map_option header_value line) (invites s)))"
| "step adminToken (PostRegister body webhookSecret) s =
     (case register_validate (proto s) (invites s) body webhookSecret of
        Inl r \<Rightarrow> (s, Some r)
      | Inr c \<Rightarrow> (s\<lparr>awaiting := awaiting s @ [c], sent := sent s @ [snd c]\<rparr>, None))"
| "step adminToken (ListenerReply i reply now) s =
     (if i < length (awaiting s)
      then case register_complete (proto s) (invites s)
                  (fst (awaiting s ! i)) (snd (awaiting s ! i)) reply now of
             (p', invites', r) \<Rightarrow>
               (s\<lparr>invites := invites', proto := p',
                   awaiting := take i (awaiting s) @ drop (Suc i) (awaiting s)\<rparr>,
                Some r)
      else (s, None))"
| "step adminToken GetHealth s = (s, Some (jsonResponse 200 HealthOk))"

fun run :: "string \<Rightarrow> event list \<Rightarrow> server \<Rightarrow> server \<times> response option list" where
  "run adminToken [] s = (s, [])"
| "run adminToken (e # es) s =
     (case step adminToken e s of
        (s', r) \<Rightarrow> (case run adminToken es s' of (s'', rs) \<Rightarrow> (s'', r # rs)))"

subsection \<open>Notions the claims speak of\<close>





text \<open>The values of \<open>Date.now()\<close> in the order the events are handled.\<close>

fun clock_of :: "event \<Rightarrow> int list" where
  "clock_of (PostInvites auth body token now) = [now]"
| "clock_of (ListenerReply i reply now) = [now]"
| "clock_of e = []"

definition clock_readings :: "event list \<Rightarrow> int list" where
  "clock_readings es = concat (map clock_of es)"

text \<open>The invariant of the data model, in two parts: which fields are present, and the
  order of the two timestamps.\<close>

definition fields_ok :: "invite_record \<Rightarrow> bool" where
  "fields_ok r =
     (if used r then usedBy r \<noteq> None \<and> usedAt r \<noteq> None
      else usedBy r = None \<and> usedAt r = None)"

definition time_ok :: "invite_record \<Rightarrow> bool" where
  "time_ok r = (case usedAt r of None \<Rightarrow> True | Some u \<Rightarrow> createdAt r \<le> u)"

definition store_fields_ok :: "invite_store \<Rightarrow> bool" where
  "store_fields_ok store = (\<forall>t r. store t = Some r \<longrightarrow> fields_ok r)"

definition store_time_ok :: "int \<Rightarrow> invite_store \<Rightarrow> bool" where
  "store_time_ok T store = (\<forall>t r. store t = Some r \<longrightarrow> time_ok r \<and> createdAt r \<le> T)"




text \<open>The required fields of a registration, in the order the specification names
  them, and those a body lacks.\<close>

datatype field = StoreNameField | NpubField | WooUrlField

definition missing_fields :: "register_body \<Rightarrow> field list" where
  "missing_fields b =
     (if truthy (storeName b) then [] else [StoreNameField]) @
     (if truthy (npub b) then [] else [NpubField]) @
     (if truthy (wooUrl b) then [] else [WooUrlField])"

subsection \<open>Example requests\<close>

text \<open>A token as \<open>crypto.randomBytes(16).toString('hex')\<close> gives it, a complete
  registration body for it, and a few stores and runs built from them.\<close>

definition example_token :: string where
  "example_token = ''5f3a9c0e1b7d42688a90c4e2d1f0b356''"

definition example_body :: "string \<Rightarrow> register_body" where
  "example_body shop =
     \<lparr>invite = Some example_token, storeName = Some shop, npub = Some generator_hex,
      wooUrl = Some ''https://shop.example/'', email = None\<rparr>"

definition example_url :: string where
  "example_url = ''https://shop.example/wp-json/woo-nostr-market/v1/order-webhook''"

definition race_events :: "event list" where
  "race_events =
     [PostInvites (Some ''Bearer adm'') (Parsed (Some ''pilot'')) example_token 1000,
      PostRegister (Parsed (example_body ''Alice'')) ''s1'',
      PostRegister (Parsed (example_body ''Bob'')) ''s2'',
      ListenerReply 0 Acked 2000,
      ListenerReply 0 Acked 2001]"

definition fresh_store :: invite_store where
  "fresh_store =
     [example_token \<mapsto>
        \<lparr>label = ''pilot'', createdAt = 1000, used = False, usedBy = None, usedAt = None\<rparr>]"


definition one_registration :: "int \<Rightarrow> event list" where
  "one_registration now =
     [PostInvites (Some ''Bearer adm'') (Parsed (Some ''pilot'')) example_token 1000,
      PostRegister (Parsed (example_body ''Alice'')) ''s1'',
      ListenerReply 0 Acked now]"

definition body_without :: "field \<Rightarrow> register_body" where
  "body_without f =
     \<lparr>invite = Some example_token,
      storeName = (if f = StoreNameField then None else Some ''Alice''),
      npub = (if f = NpubField then None else Some generator_hex),
      wooUrl = (if f = WooUrlField then None else Some ''https://shop.example/''),
      email = None\<rparr>"


section \<open>Properties of the codec\<close>

subsection \<open>Bits, most significant first\<close>

lemma bits_nat_append: "bits_nat (xs @ ys) = bits_nat xs * 2 ^ length ys + bits_nat ys"
  by (induction xs) (simp_all add: power_add algebra_simps)

lemma bits_nat_less: "bits_nat bs < 2 ^ length bs"
  by (induction bs) auto

lemma bits_nat_bit: "bits_nat (map (bit v) (rev [0..<n])) = take_bit n v"
  by (induction n) (simp_all add: take_bit_Suc_from_most)

lemma length_value_bits [simp]: "length (value_bits v) = 5"
  by (simp add: value_bits_def)

lemma bits_nat_value_bits: "v < 32 \<Longrightarrow> bits_nat (value_bits v) = v"
  by (simp add: value_bits_def bits_nat_bit take_bit_nat_eq_self)

subsection \<open>The accumulator keeps the pending bits\<close>

lemma or_low_bits: "v < 32 \<Longrightarrow> push_bit 5 (m :: nat) OR v = m * 32 + v"
proof -
  assume "v < 32"
  then have v: "take_bit 5 v = v"
    by (simp add: take_bit_nat_eq_self)
  have "push_bit 5 m AND take_bit 5 v = 0"
    by (rule bit_eqI) (auto simp: bit_simps)
  then have "push_bit 5 m + take_bit 5 v = push_bit 5 m OR take_bit 5 v"
    by (rule disjunctive_add_eq_or)
  then show ?thesis
    by (simp add: v push_bit_eq_mult)
qed

lemma shift_in_value:
  assumes "v < 32" "n + 5 \<le> 32"
  shows "unat (take_bit (n + 5) (push_bit 5 a OR word_of_nat v :: 32 word)) = unat (take_bit n a) * 32 + v"
proof -
  have "v < 2 ^ 5"
    using assms by simp
  also have "(2::nat) ^ 5 \<le> 2 ^ (n + 5)"
    by (rule power_increasing) simp_all
  finally have v: "unat (word_of_nat v :: 32 word) = v" "take_bit (n + 5) v = v"
    using assms by (simp_all add: unat_of_nat take_bit_nat_eq_self)
  have "unat (take_bit (n + 5) (push_bit 5 a OR word_of_nat v :: 32 word))
      = take_bit (n + 5) (take_bit 32 (push_bit 5 (unat a))) OR v"
    by (simp add: unsigned_take_bit_eq unsigned_or_eq unsigned_push_bit_eq v)
  also have "take_bit (n + 5) (take_bit 32 (push_bit 5 (unat a))) = push_bit 5 (take_bit n (unat a))"
    using assms by (simp add: take_bit_push_bit min_def)
  also have "push_bit 5 (take_bit n (unat a)) OR v = take_bit n (unat a) * 32 + v"
    using assms by (intro or_low_bits)
  finally show ?thesis
    by (simp add: unsigned_take_bit_eq)
qed

lemma shift_out_byte:
  assumes "n \<le> 24"
  shows "unat (signed_drop_bit n (x :: 32 word) AND 0xff) = unat (take_bit (n + 8) x) div 2 ^ n"
proof -
  have m: "(0xff :: 32 word) = mask 8"
    by (simp add: mask_eq_exp_minus_1)
  have x: "take_bit 32 (unat x) = unat x"
    by (rule take_bit_nat_eq_self) (use unsigned_less [of x, where 'a = nat] in simp)
  have "signed_drop_bit n x AND mask 8 = take_bit 8 (drop_bit n x)"
    using assms by (intro bit_word_eqI) (auto simp: bit_simps)
  then have "unat (signed_drop_bit n x AND 0xff) = take_bit 8 (drop_bit n (unat x))"
    by (simp add: m unsigned_take_bit_eq unsigned_drop_bit_eq x)
  also have "\<dots> = drop_bit n (take_bit (n + 8) (unat x))"
    by (simp add: drop_bit_take_bit)
  finally show ?thesis
    by (simp add: unsigned_take_bit_eq drop_bit_eq_div)
qed


lemma bits_nat_split:
  assumes "k \<le> length q"
  shows "bits_nat q div 2 ^ (length q - k) = bits_nat (take k q)"
    and "bits_nat q mod 2 ^ (length q - k) = bits_nat (drop k q)"
proof -
  have len: "length (drop k q) = length q - k"
    by simp
  have "bits_nat q = bits_nat (take k q @ drop k q)"
    by simp
  also have "\<dots> = bits_nat (take k q) * 2 ^ (length q - k) + bits_nat (drop k q)"
    by (simp only: bits_nat_append len)
  finally have eq: "bits_nat q = bits_nat (take k q) * 2 ^ (length q - k) + bits_nat (drop k q)" .
  have less: "bits_nat (drop k q) < 2 ^ (length q - k)"
    using bits_nat_less [of "drop k q"] by simp
  show "bits_nat q div 2 ^ (length q - k) = bits_nat (take k q)"
    using less by (simp add: eq)
  show "bits_nat q mod 2 ^ (length q - k) = bits_nat (drop k q)"
    using less by (simp add: eq)
qed

lemma emit_bytes_once:
  assumes "bits < 8"
  shows "emit_bytes acc (bits + 5) bytes =
     (if 3 \<le> bits then (bits - 3, bytes @ [unat (signed_drop_bit (bits - 3) acc AND 0xff)])
      else (bits + 5, bytes))"
proof (cases "3 \<le> bits")
  case False
  then show ?thesis
    by (simp add: emit_bytes.simps [of acc "bits + 5"])
next
  case True
  with assms have "8 \<le> bits + 5" "bits + 5 - 8 = bits - 3" "\<not> 8 \<le> bits - 3" "(bits - 3) mod 32 = bits - 3"
    by simp_all
  then have "emit_bytes acc (bits + 5) bytes
      = emit_bytes acc (bits - 3) (bytes @ [unat (signed_drop_bit (bits - 3) acc AND 0xff)])"
    by (simp add: emit_bytes.simps [of acc "bits + 5"])
  also have "\<dots> = (bits - 3, bytes @ [unat (signed_drop_bit (bits - 3) acc AND 0xff)])"
    using \<open>\<not> 8 \<le> bits - 3\<close> by (simp add: emit_bytes.simps [of acc "bits - 3"])
  finally show ?thesis
    using True by simp
qed

lemma pack_bytes_short: "length bs < 8 \<Longrightarrow> pack_bytes bs = []"
  by (simp add: pack_bytes.simps)

lemma pack_bytes_step:
  "8 \<le> length q \<Longrightarrow> pack_bytes (q @ rest) = bits_nat (take 8 q) # pack_bytes (drop 8 q @ rest)"
  by (simp add: pack_bytes.simps [of "q @ rest"])

lemma convert_bits_pack:
  assumes "\<forall>v\<in>set vs. v < 32" "length p = bits" "bits < 8" "unat (take_bit bits acc) = bits_nat p"
  shows "convert_bits vs acc bits bytes = bytes @ pack_bytes (p @ concat (map value_bits vs))"
  using assms
proof (induction vs arbitrary: acc bits bytes p)
  case Nil
  then show ?case by (simp add: pack_bytes_short)
next
  case (Cons v vs)
  let ?acc = "push_bit 5 acc OR word_of_nat v :: 32 word"
  let ?q = "p @ value_bits v"
  from Cons.prems have v: "v < 32" and vs: "\<forall>v\<in>set vs. v < 32"
    by simp_all
  have lenq: "length ?q = bits + 5"
    using Cons.prems by simp
  have q: "unat (take_bit (bits + 5) ?acc) = bits_nat ?q"
    using shift_in_value [of v bits acc] v Cons.prems
    by (simp add: bits_nat_append bits_nat_value_bits)
  show ?case
  proof (cases "3 \<le> bits")
    case False
    then have "bits + 5 < 8" by simp
    from Cons.IH [OF vs lenq this q, of bytes] False Cons.prems(3)
    show ?thesis
      by (simp add: emit_bytes_once)
  next
    case True
    let ?b = "bits - 3"
    have b: "?b + 8 = bits + 5" "length ?q - 8 = ?b" "8 \<le> length ?q" "?b < 8" "?b \<le> 24"
      using True Cons.prems lenq by simp_all
    have byte: "unat (signed_drop_bit ?b ?acc AND 0xff) = bits_nat (take 8 ?q)"
      using shift_out_byte [OF b(5), of ?acc] bits_nat_split(1) [OF b(3)] q
      by (simp only: b)
    have "unat (take_bit ?b ?acc) = take_bit ?b (unat ?acc)"
      by (simp only: unsigned_take_bit_eq)
    also have "\<dots> = take_bit ?b (take_bit (?b + 8) (unat ?acc))"
      by (simp only: take_bit_take_bit)
    also have "\<dots> = take_bit ?b (bits_nat ?q)"
      using q by (simp only: b unsigned_take_bit_eq)
    also have "\<dots> = bits_nat ?q mod 2 ^ ?b"
      by (simp only: take_bit_eq_mod)
    also have "\<dots> = bits_nat (drop 8 ?q)"
      using bits_nat_split(2) [OF b(3)] by (simp only: b)
    finally have pend: "unat (take_bit ?b ?acc) = bits_nat (drop 8 ?q)" .
    have len': "length (drop 8 ?q) = ?b"
      using b by simp
    have "convert_bits (v # vs) acc bits bytes
        = convert_bits vs ?acc ?b (bytes @ [bits_nat (take 8 ?q)])"
      using True Cons.prems(3) by (simp add: emit_bytes_once byte del: take_append drop_append)
    also have "\<dots> = (bytes @ [bits_nat (take 8 ?q)]) @ pack_bytes (drop 8 ?q @ concat (map value_bits vs))"
      by (rule Cons.IH [OF vs len' b(4) pend])
    also have "\<dots> = bytes @ pack_bytes (?q @ concat (map value_bits vs))"
      using pack_bytes_step [OF b(3), of "concat (map value_bits vs)"] by simp
    finally show ?thesis
      by simp
  qed
qed


subsection \<open>Characters, values and hexadecimal digits\<close>

lemma indexOf_None: "indexOf xs c = None \<longleftrightarrow> c \<notin> set xs"
  by (induction xs) auto

lemma indexOf_Some: "c \<in> set xs \<Longrightarrow> indexOf xs c = Some (length (takeWhile (\<lambda>x. x \<noteq> c) xs))"
  by (induction xs) auto

lemma indexOf_less: "indexOf xs c = Some i \<Longrightarrow> i < length xs"
  by (induction xs arbitrary: i) (auto split: if_splits)

lemma char_value_less: "c \<in> set CHARSET \<Longrightarrow> char_value c < 32"
proof -
  assume "c \<in> set CHARSET"
  then have "indexOf CHARSET c = Some (char_value c)"
    by (simp add: indexOf_Some char_value_def)
  then have "char_value c < length CHARSET"
    by (rule indexOf_less)
  then show ?thesis
    by (simp add: CHARSET_def)
qed

lemma decode_chars_in_alphabet:
  "set data \<subseteq> set CHARSET \<Longrightarrow> decode_chars data vals = Inr (vals @ map char_value data)"
  by (induction data arbitrary: vals) (simp_all add: indexOf_Some char_value_def)

lemma decode_chars_outside:
  "\<not> set data \<subseteq> set CHARSET \<Longrightarrow> decode_chars data vals = Inl (Error ''Invalid npub character'')"
proof (induction data arbitrary: vals)
  case Nil
  then show ?case by simp
next
  case (Cons c data)
  show ?case
  proof (cases "c \<in> set CHARSET")
    case True
    with Cons.prems have "\<not> set data \<subseteq> set CHARSET"
      by simp
    with True Cons.IH show ?thesis
      by (simp add: indexOf_Some)
  next
    case False
    then have "indexOf CHARSET c = None"
      by (simp add: indexOf_None)
    then show ?thesis
      by simp
  qed
qed

lemma pack_bytes_less: "b \<in> set (pack_bytes bs) \<Longrightarrow> b < 256"
proof (induction bs rule: pack_bytes.induct)
  case (1 bs)
  show ?case
  proof (cases "length bs < 8")
    case True
    with "1.prems" show ?thesis
      by (simp add: pack_bytes.simps [of bs])
  next
    case False
    have "bits_nat (take 8 bs) < 2 ^ length (take 8 bs)"
      by (rule bits_nat_less)
    with False have "bits_nat (take 8 bs) < 256"
      by simp
    with False "1.prems" "1.IH" show ?thesis
      by (auto simp: pack_bytes.simps [of bs])
  qed
qed

lemma padStart2_toString16: "b < 256 \<Longrightarrow> padStart2 (toString16 b) = hex2 b"
proof (cases "b < 16")
  case True
  then show ?thesis
    by (simp add: toString16.simps [of b] padStart2_def hex2_def hexDigit_def)
next
  case False
  assume "b < 256"
  then have "b div 16 < 16"
    by simp
  with False show ?thesis
    by (simp add: toString16.simps [of b] toString16.simps [of "b div 16"] padStart2_def hex2_def)
qed

lemma bytesToHex_hex2: "\<forall>b\<in>set bs. b < 256 \<Longrightarrow> bytesToHex bs = concat (map hex2 bs)"
  by (induction bs) (simp_all add: bytesToHex_def padStart2_toString16)

lemma convert_bits_from_start:
  assumes "\<forall>v\<in>set vs. v < 32"
  shows "convert_bits vs 0 0 [] = pack_bytes (concat (map value_bits vs))"
  using convert_bits_pack [OF assms, of "[]" 0 0 "[]"] by simp

lemma npubToHex_in_alphabet:
  assumes "startsWith ident ''npub1''" "set (drop 5 ident) \<subseteq> set CHARSET"
  shows "npubToHex ident = Inr (decode_spec ident)"
proof -
  let ?vals = "map char_value (drop 5 ident)"
  let ?payload = "take (length ?vals - 6) ?vals"
  have payload: "rev (drop 6 (rev ?vals)) = ?payload"
    by (simp add: rev_drop)
  have "\<forall>v\<in>set ?vals. v < 32"
    using assms(2) by (auto simp: char_value_less)
  then have small: "\<forall>v\<in>set ?payload. v < 32"
    by (meson in_set_takeD)
  have bytes: "convert_bits ?payload 0 0 [] = pack_bytes (concat (map value_bits ?payload))"
    using small by (rule convert_bits_from_start)
  have "npubToHex ident = Inr (bytesToHex (convert_bits ?payload 0 0 []))"
    using assms by (simp add: npubToHex_def decode_chars_in_alphabet)
  also have "bytesToHex (convert_bits ?payload 0 0 []) =
      concat (map hex2 (pack_bytes (concat (map value_bits ?payload))))"
    unfolding bytes by (rule bytesToHex_hex2) (simp add: pack_bytes_less)
  also have "\<dots> = decode_spec ident"
    unfolding decode_spec_def Let_def payload ..
  finally show ?thesis .
qed

lemma npubToHex_fails_iff:
  "(\<exists>e. npubToHex ident = Inl e) \<longleftrightarrow> startsWith ident ''npub1'' \<and> \<not> set (drop 5 ident) \<subseteq> set CHARSET"
proof (cases "startsWith ident ''npub1''")
  case False
  then show ?thesis
    by (simp add: npubToHex_def)
next
  case True
  show ?thesis
  proof (cases "set (drop 5 ident) \<subseteq> set CHARSET")
    case True
    with \<open>startsWith ident ''npub1''\<close> show ?thesis
      by (simp add: npubToHex_in_alphabet)
  next
    case False
    with \<open>startsWith ident ''npub1''\<close> show ?thesis
      by (simp add: npubToHex_def decode_chars_outside)
  qed
qed

lemma npubToHex_generator: "npubToHex generator_npub = Inr generator_hex"
  unfolding generator_npub_def generator_hex_def by code_simp

lemma npubToHex_no_prefix: "\<not> startsWith ident ''npub1'' \<Longrightarrow> npubToHex ident = Inr ident"
  by (simp add: npubToHex_def)

lemma hex_no_prefix:
  assumes "length ident = 64" "\<forall>c\<in>set ident. isHexChar c"
  shows "\<not> startsWith ident ''npub1''"
proof
  assume prefix: "startsWith ident ''npub1''"
  from assms(1) obtain c cs where ident: "ident = c # cs"
    by (cases ident) auto
  with prefix have "c = CHR ''n''"
    by (simp add: startsWith_def)
  with ident assms(2) have "isHexChar CHR ''n''"
    by simp
  then show False
    by (simp add: isHexChar_def)
qed

section \<open>Properties of the handlers\<close>

text \<open>The definitions a run on concrete requests unfolds.\<close>

lemmas eval_defs = post_invites_def get_invites_def authorized_def truthy_def text_of_def
  header_value_def is_ows_def register_validate_def find_invite_def lookup_def target_truthy_def target_used_def marked_def
  mark_used_def clean_prototype_def PROTOTYPE_FUNCTIONS_def npubToHex_def startsWith_def
  register_complete_def registerOnListener_def init_server_def start_server_def
  stripTrailingSlash_def post_register_def
  example_token_def example_body_def example_url_def generator_hex_def

subsection \<open>What a handler can do to the store\<close>



lemma mark_used_cases:
  assumes "mark_used p store k shop now = Some (p', store')"
  shows "(\<exists>r. store k = Some r \<and> p' = p \<and>
            store' = store(k \<mapsto> r\<lparr>used := True, usedBy := Some shop, usedAt := Some now\<rparr>)) \<or>
         (store k = None \<and> k \<in> set PROTOTYPE_FUNCTIONS \<and> store' = store \<and>
            p' = p\<lparr>function_mark := (function_mark p)(k := Some (shop, now))\<rparr>) \<or>
         (store k = None \<and> k \<notin> set PROTOTYPE_FUNCTIONS \<and> k = ''__proto__'' \<and> store' = store \<and>
            p' = p\<lparr>prototype_mark := Some (shop, now)\<rparr>) \<or>
         (store k = None \<and> k \<notin> set PROTOTYPE_FUNCTIONS \<and> k \<noteq> ''__proto__'' \<and> store' = store \<and> p' = p)"
  using assms
  by (auto simp: mark_used_def lookup_def split: option.splits if_splits target.splits prod.splits)

lemma register_complete_cases:
  assumes "register_complete p store tok call reply now = (p', store', resp)"
  shows "p' = p \<and> store' = store \<and> status resp = 500 \<or>
     reply = Acked \<and> mark_used p store tok (call_name call) now = Some (p', store') \<and>
     resp = jsonResponse 200 (Registered (call_webhookUrl call) (call_webhookSecret call))"
  using assms
  by (auto simp: register_complete_def registerOnListener_def
      split: sum.splits option.splits listener_reply.splits prod.splits)






subsection \<open>The state after an event\<close>

lemma fst_run_Cons: "fst (run tk (e # es) s) = fst (run tk es (fst (step tk e s)))"
  by (cases "step tk e s"; cases "run tk es (fst (step tk e s))") simp

lemma step_PostInvites:
  "invites (fst (step tk (PostInvites auth body token now) s))
     = fst (post_invites tk (map_option header_value auth) body token now (invites s))"
  "proto (fst (step tk (PostInvites auth body token now) s)) = proto s"
  "awaiting (fst (step tk (PostInvites auth body token now) s)) = awaiting s"
  "sent (fst (step tk (PostInvites auth body token now) s)) = sent s"
  by (simp_all split: prod.splits)

lemma step_ListenerReply:
  assumes "i < length (awaiting s)"
  shows "proto (fst (step tk (ListenerReply i reply now) s))
       = fst (register_complete (proto s) (invites s) (fst (awaiting s ! i)) (snd (awaiting s ! i)) reply now)"
    and "invites (fst (step tk (ListenerReply i reply now) s))
       = fst (snd (register_complete (proto s) (invites s) (fst (awaiting s ! i)) (snd (awaiting s ! i)) reply now))"
    and "snd (step tk (ListenerReply i reply now) s)
       = Some (snd (snd (register_complete (proto s) (invites s) (fst (awaiting s ! i)) (snd (awaiting s ! i)) reply now)))"
    and "awaiting (fst (step tk (ListenerReply i reply now) s))
       = take i (awaiting s) @ drop (Suc i) (awaiting s)"
    and "sent (fst (step tk (ListenerReply i reply now) s)) = sent s"
  using assms by (simp_all split: prod.splits)

lemma step_ListenerReply_late:
  "\<not> i < length (awaiting s) \<Longrightarrow> step tk (ListenerReply i reply now) s = (s, None)"
  by simp

lemma step_other:
  "invites (fst (step tk (GetInvites auth) s)) = invites s"
  "proto (fst (step tk (GetInvites auth) s)) = proto s"
  "invites (fst (step tk (PostRegister body secret) s)) = invites s"
  "proto (fst (step tk (PostRegister body secret) s)) = proto s"
  "invites (fst (step tk GetHealth s)) = invites s"
  "proto (fst (step tk GetHealth s)) = proto s"
  by (simp_all split: sum.splits)

subsection \<open>A marked invite stays marked\<close>













subsection \<open>Registrations waiting for the listener\<close>






subsection \<open>The fields and timestamps of the records\<close>

lemma store_fields_ok_upd:
  "store_fields_ok store \<Longrightarrow> fields_ok r \<Longrightarrow> store_fields_ok (store(k \<mapsto> r))"
  by (simp add: store_fields_ok_def)

lemma post_invites_fields_ok:
  "store_fields_ok store \<Longrightarrow> store_fields_ok (fst (post_invites tk auth body token now store))"
  by (simp add: post_invites_def store_fields_ok_upd fields_ok_def split: parsed.splits)

lemma mark_used_record:
  assumes "mark_used p store k shop now = Some (p', store')"
  shows "store' = store \<or>
     (\<exists>r. store k = Some r \<and>
        store' = store(k \<mapsto> r\<lparr>used := True, usedBy := Some shop, usedAt := Some now\<rparr>))"
  using mark_used_cases [OF assms] by (elim disjE exE conjE) simp_all

lemma register_complete_record:
  "fst (snd (register_complete p store tok call reply now)) = store \<or>
   (\<exists>r. store tok = Some r \<and>
      fst (snd (register_complete p store tok call reply now))
        = store(tok \<mapsto> r\<lparr>used := True, usedBy := Some (call_name call), usedAt := Some now\<rparr>))"
proof -
  obtain p' store' resp where c: "register_complete p store tok call reply now = (p', store', resp)"
    by (cases "register_complete p store tok call reply now")
  from register_complete_cases [OF c] have "store' = store \<or>
     (\<exists>r. store tok = Some r \<and>
        store' = store(tok \<mapsto> r\<lparr>used := True, usedBy := Some (call_name call), usedAt := Some now\<rparr>))"
    by (auto dest: mark_used_record)
  with c show ?thesis
    by simp
qed

lemma register_complete_fields_ok:
  assumes "store_fields_ok store"
  shows "store_fields_ok (fst (snd (register_complete p store tok call reply now)))"
  using register_complete_record [of p store tok call reply now] assms
  by (auto simp: store_fields_ok_upd fields_ok_def)

lemma step_fields_ok:
  "store_fields_ok (invites s) \<Longrightarrow> store_fields_ok (invites (fst (step tk e s)))"
proof (cases e)
  case (ListenerReply i reply now)
  then show "store_fields_ok (invites s) \<Longrightarrow> ?thesis"
    by (cases "i < length (awaiting s)")
      (simp_all add: step_ListenerReply step_ListenerReply_late register_complete_fields_ok
        del: step.simps)
qed (simp_all add: step_PostInvites step_other post_invites_fields_ok del: step.simps)

lemma run_fields_ok: "store_fields_ok (invites s) \<Longrightarrow> store_fields_ok (invites (fst (run tk es s)))"
proof (induction es arbitrary: s)
  case Nil
  then show ?case by simp
next
  case (Cons e es)
  then show ?case
    unfolding fst_run_Cons by (intro Cons.IH step_fields_ok)
qed

lemma store_time_ok_mono: "store_time_ok T store \<Longrightarrow> T \<le> T' \<Longrightarrow> store_time_ok T' store"
  by (fastforce simp: store_time_ok_def)

lemma store_time_ok_upd:
  "store_time_ok T store \<Longrightarrow> time_ok r \<Longrightarrow> createdAt r \<le> T \<Longrightarrow> store_time_ok T (store(k \<mapsto> r))"
  by (simp add: store_time_ok_def)

lemma post_invites_time_ok:
  "store_time_ok now store \<Longrightarrow> store_time_ok now (fst (post_invites tk auth body token now store))"
  by (simp add: post_invites_def store_time_ok_upd time_ok_def split: parsed.splits)

lemma register_complete_time_ok:
  assumes "store_time_ok now store"
  shows "store_time_ok now (fst (snd (register_complete p store tok call reply now)))"
  using register_complete_record [of p store tok call reply now]
proof (elim disjE exE conjE)
  assume "fst (snd (register_complete p store tok call reply now)) = store"
  with assms show ?thesis
    by simp
next
  fix r
  assume r: "store tok = Some r"
    and upd: "fst (snd (register_complete p store tok call reply now))
      = store(tok \<mapsto> r\<lparr>used := True, usedBy := Some (call_name call), usedAt := Some now\<rparr>)"
  from assms r have "createdAt r \<le> now"
    by (auto simp: store_time_ok_def)
  with assms show ?thesis
    unfolding upd by (simp add: store_time_ok_upd time_ok_def)
qed

lemma step_time_ok:
  assumes "store_time_ok T (invites s)" "sorted (T # clock_of e)"
  shows "store_time_ok (last (T # clock_of e)) (invites (fst (step tk e s)))"
proof (cases e)
  case (PostInvites auth body token now)
  with assms have "store_time_ok now (invites s)"
    using store_time_ok_mono [of T "invites s" now] by simp
  with PostInvites show ?thesis
    by (simp add: step_PostInvites post_invites_time_ok del: step.simps)
next
  case (ListenerReply i reply now)
  with assms have "store_time_ok now (invites s)"
    using store_time_ok_mono [of T "invites s" now] by simp
  with ListenerReply show ?thesis
    by (cases "i < length (awaiting s)")
      (simp_all add: step_ListenerReply step_ListenerReply_late register_complete_time_ok
        del: step.simps)
qed (use assms in \<open>simp_all add: step_other del: step.simps\<close>)

lemma run_time_ok:
  "store_time_ok T (invites s) \<Longrightarrow> sorted (T # clock_readings es) \<Longrightarrow>
   store_time_ok (last (T # clock_readings es)) (invites (fst (run tk es s)))"
proof (induction es arbitrary: s T)
  case Nil
  then show ?case by (simp add: clock_readings_def)
next
  case (Cons e es)
  let ?T = "last (T # clock_of e)"
  have readings: "T # clock_readings (e # es) = (T # clock_of e) @ clock_readings es"
    by (simp add: clock_readings_def)
  from Cons.prems(2) have sorted_e: "sorted (T # clock_of e)"
    unfolding readings by (auto simp: sorted_append)
  from Cons.prems(2) have sorted_es: "sorted (?T # clock_readings es)"
    unfolding readings by (cases e) (auto simp: sorted_append)
  have last: "last (?T # clock_readings es) = last (T # clock_readings (e # es))"
    unfolding readings by (cases e) auto
  from Cons.prems(1) sorted_e have "store_time_ok ?T (invites (fst (step tk e s)))"
    by (rule step_time_ok)
  from Cons.IH [OF this sorted_es] show ?case
    by (simp only: fst_run_Cons last)
qed

lemma init_stores_ok: "store_fields_ok (invites init_server)" "store_time_ok T (invites init_server)"
  by (simp_all add: store_fields_ok_def store_time_ok_def init_server_def start_server_def)

lemma reachable_record_ok:
  assumes "invites (fst (run tk es init_server)) t = Some r"
  shows "fields_ok r" and "sorted (clock_readings es) \<Longrightarrow> time_ok r"
proof -
  have "store_fields_ok (invites (fst (run tk es init_server)))"
    by (intro run_fields_ok init_stores_ok)
  with assms show "fields_ok r"
    by (auto simp: store_fields_ok_def)
next
  assume sorted: "sorted (clock_readings es)"
  define T where "T = (case clock_readings es of [] \<Rightarrow> 0 | x # xs \<Rightarrow> x)"
  have "sorted (T # clock_readings es)"
    using sorted by (cases "clock_readings es") (simp_all add: T_def)
  with init_stores_ok(2) [of T]
  have "store_time_ok (last (T # clock_readings es)) (invites (fst (run tk es init_server)))"
    by (rule run_time_ok)
  with assms show "time_ok r"
    by (auto simp: store_time_ok_def)
qed

subsection \<open>Marking an invite, and failing without a trace\<close>






subsection \<open>A token that is not consumed can be presented again\<close>





subsection \<open>The header value the handlers read\<close>

lemma header_value_not_ows_end: "is_ows c \<Longrightarrow> header_value line \<noteq> xs @ [c]"
proof
  let ?ys = "rev (dropWhile is_ows line)"
  assume c: "is_ows c" and "header_value line = xs @ [c]"
  then have "rev (dropWhile is_ows ?ys) = xs @ [c]"
    by (simp only: header_value_def)
  then have "rev (rev (dropWhile is_ows ?ys)) = rev (xs @ [c])"
    by (rule arg_cong)
  then have "dropWhile is_ows ?ys = c # rev xs"
    by simp
  then have "\<not> is_ows c"
    by (simp add: dropWhile_eq_Cons_conv)
  with c show False
    by simp
qed

lemma header_value_not_bearer_space: "header_value line \<noteq> ''Bearer ''"
  using header_value_not_ows_end [of "CHR '' ''" line "''Bearer''"] by (simp add: is_ows_def)

subsection \<open>Inherited names and header lines on examples\<close>

text \<open>A registration that presents \<open>constructor\<close> as its invite finds the function of that
  name, is sent to the listener and answered with 200, and marks the function; \<open>toString\<close>
  is another function and still passes; a name that nothing carries is refused.\<close>

lemma inherited_name_registers:
  "snd (run ''adm''
      [PostRegister (Parsed ((example_body ''Alice'') \<lparr>invite := Some ''constructor''\<rparr>)) ''s1'',
       ListenerReply 0 Acked 2000,
       PostRegister (Parsed ((example_body ''Bob'') \<lparr>invite := Some ''constructor''\<rparr>)) ''s2'',
       PostRegister (Parsed ((example_body ''Bob'') \<lparr>invite := Some ''toString''\<rparr>)) ''s3'',
       PostRegister (Parsed ((example_body ''Bob'') \<lparr>invite := Some ''nothing''\<rparr>)) ''s4'']
      init_server)
     = [None,
        Some (jsonResponse 200 (Registered example_url ''s1'')),
        Some (jsonResponse 403 (ErrorBody ''Invite already used'')),
        None,
        Some (jsonResponse 403 (ErrorBody ''Invalid or expired invite''))]"
  by (simp add: eval_defs)

text \<open>A registration with \<open>__proto__\<close> marks \<open>Object.prototype\<close>: after it every function
  and the three written properties count as used, while a record created later has its
  own \<open>used = false\<close>.\<close>

lemma prototype_registers:
  "snd (run ''adm''
      [PostRegister (Parsed ((example_body ''Alice'') \<lparr>invite := Some ''__proto__''\<rparr>)) ''s1'',
       ListenerReply 0 Acked 2000,
       PostRegister (Parsed ((example_body ''Bob'') \<lparr>invite := Some ''toString''\<rparr>)) ''s2'',
       PostRegister (Parsed ((example_body ''Bob'') \<lparr>invite := Some ''usedBy''\<rparr>)) ''s3'',
       PostInvites (Some ''Bearer adm'') (Parsed None) example_token 3000,
       PostRegister (Parsed (example_body ''Bob'')) ''s4'']
      init_server)
     = [None,
        Some (jsonResponse 200 (Registered example_url ''s1'')),
        Some (jsonResponse 403 (ErrorBody ''Invite already used'')),
        Some (jsonResponse 403 (ErrorBody ''Invite already used'')),
        Some (jsonResponse 200
          (InviteCreated example_token (''https://nostr.bitcoinbutlers.com?invite='' @ example_token))),
        None]"
  by (simp add: eval_defs)

text \<open>Header lines as they reach the handlers.\<close>

lemma header_value_examples:
  "header_value ''  Bearer adm  '' = ''Bearer adm'' \<and> header_value ''Bearer '' = ''Bearer'' \<and>
   header_value '' '' = []"
  by (simp add: header_value_def is_ows_def)

section \<open>The claims\<close>

text \<open>
  C1. Decoding the identifier of the secp256k1 generator point's key gives
  \<open>79be667e...16f81798\<close>; and for every identifier with the \<open>npub1\<close> prefix whose other
  characters are all in the alphabet, \<open>npubToHex\<close> returns what the specification
  describes: the characters' 5-bit values without the last six, their bits cut into
  bytes from the most significant bit on, the bits after the last full byte discarded,
  each byte written as two hexadecimal digits.
\<close>

theorem npubToHex_decodes:
  "npubToHex generator_npub = Inr generator_hex \<and>
   (\<forall>ident. startsWith ident ''npub1'' \<and> set (drop 5 ident) \<subseteq> set CHARSET
      \<longrightarrow> npubToHex ident = Inr (decode_spec ident))"
  using npubToHex_generator npubToHex_in_alphabet by blast

text \<open>The general part at a ten-byte payload: the bytes 00 to 09, followed by six
  checksum characters.\<close>

theorem npubToHex_decodes_witness:
  "startsWith ''npub1qqqsyqcyq5rqwzqfhwcuwz'' ''npub1'' \<and>
   set (drop 5 ''npub1qqqsyqcyq5rqwzqfhwcuwz'') \<subseteq> set CHARSET \<and>
   decode_spec ''npub1qqqsyqcyq5rqwzqfhwcuwz'' = ''00010203040506070809'' \<and>
   npubToHex ''npub1qqqsyqcyq5rqwzqfhwcuwz'' = Inr ''00010203040506070809''"
proof -
  have a: "startsWith ''npub1qqqsyqcyq5rqwzqfhwcuwz'' ''npub1''"
    by (simp add: startsWith_def)
  have b: "set (drop 5 ''npub1qqqsyqcyq5rqwzqfhwcuwz'') \<subseteq> set CHARSET"
    by (simp add: CHARSET_def)
  have c: "decode_spec ''npub1qqqsyqcyq5rqwzqfhwcuwz'' = ''00010203040506070809''"
    by code_simp
  from npubToHex_decodes a b have "npubToHex ''npub1qqqsyqcyq5rqwzqfhwcuwz'' = Inr (decode_spec ''npub1qqqsyqcyq5rqwzqfhwcuwz'')"
    by blast
  with a b c show ?thesis
    by simp
qed

text \<open>
  C2. Two registrations that present the same unused invite while both are in flight
  should not both succeed. The handler checks \<open>used\<close> before it awaits the listener and
  sets it after, so in the run below both requests pass the check, both calls reach the
  listener, and both are answered with 200 and their credentials.
\<close>

theorem concurrent_registrations_both_succeed:
  "snd (run ''adm'' race_events init_server) =
     [Some (jsonResponse 200
        (InviteCreated example_token (''https://nostr.bitcoinbutlers.com?invite='' @ example_token))),
      None, None,
      Some (jsonResponse 200 (Registered example_url ''s1'')),
      Some (jsonResponse 200 (Registered example_url ''s2''))] \<and>
   sent (fst (run ''adm'' race_events init_server)) =
     [ListenerCall generator_hex ''Alice'' example_url ''s1'',
      ListenerCall generator_hex ''Bob'' example_url ''s2'']"
  by (simp add: race_events_def eval_defs)







text \<open>
  C5, as amended. In every state reached from the empty store, a used record has both
  \<open>usedBy\<close> and \<open>usedAt\<close> and an unused record has neither; and \<open>createdAt \<le> usedAt\<close>
  holds whenever the readings of \<open>Date.now()\<close> never went down during the run.
\<close>

theorem reachable_invites_well_formed:
  assumes "invites (fst (run tk es init_server)) t = Some r"
  shows "fields_ok r \<and> (sorted (clock_readings es) \<longrightarrow> time_ok r)"
  using reachable_record_ok [OF assms] by blast

text \<open>An invite created at 1000 and used at 2000.\<close>

theorem reachable_invites_well_formed_witness:
  "sorted (clock_readings (one_registration 2000)) \<and>
   fields_ok \<lparr>label = ''pilot'', createdAt = 1000, used = True, usedBy = Some ''Alice'',
      usedAt = Some 2000\<rparr> \<and>
   time_ok \<lparr>label = ''pilot'', createdAt = 1000, used = True, usedBy = Some ''Alice'',
      usedAt = Some 2000\<rparr>"
proof -
  have reached: "invites (fst (run ''adm'' (one_registration 2000) init_server)) example_token
     = Some \<lparr>label = ''pilot'', createdAt = 1000, used = True, usedBy = Some ''Alice'',
          usedAt = Some 2000\<rparr>"
    by (simp add: one_registration_def eval_defs)
  have clock: "sorted (clock_readings (one_registration 2000))"
    by (simp add: one_registration_def clock_readings_def)
  from reachable_invites_well_formed [OF reached] clock show ?thesis
    by simp
qed

text \<open>C5 as stated fails when the clock is set back between the creation of an invite and
  its use: created at 1000, used at 900.\<close>

theorem backward_clock_breaks_time_order:
  "invites (fst (run ''adm'' (one_registration 900) init_server)) example_token
     = Some \<lparr>label = ''pilot'', createdAt = 1000, used = True, usedBy = Some ''Alice'',
          usedAt = Some 900\<rparr> \<and>
   \<not> time_ok \<lparr>label = ''pilot'', createdAt = 1000, used = True, usedBy = Some ''Alice'',
          usedAt = Some 900\<rparr>"
  by (simp add: one_registration_def time_ok_def eval_defs)

text \<open>
  C6. \<open>npubToHex\<close> throws exactly when its input has the \<open>npub1\<close> prefix and a character
  after it is outside the alphabet. A registration whose invite is found and unused, with
  all three fields, whose identifier decodes to anything but 64 characters is answered
  with 400 \<open>Invalid npub: decoded key is wrong length\<close>, whatever the secret would have
  been, with the state unchanged and no call to the listener: served alone, and as an
  event of the server.
\<close>

theorem decode_failure_and_wrong_length:
  "((\<exists>e. npubToHex ident = Inl e) \<longleftrightarrow>
      startsWith ident ''npub1'' \<and> \<not> set (drop 5 ident) \<subseteq> set CHARSET) \<and>
   (\<forall>p store b tg h secret reply now.
      find_invite p store (invite b) = Some tg \<and> \<not> target_used p tg \<and>
      truthy (npub b) \<and> truthy (wooUrl b) \<and> truthy (storeName b) \<and>
      npubToHex (text_of (npub b)) = Inr h \<and> length h \<noteq> 64
      \<longrightarrow> post_register p store (Parsed b) secret reply now
            = (p, store,
               jsonResponse 400 (ErrorBody ''Invalid npub: decoded key is wrong length''), [])) \<and>
   (\<forall>tk s b tg h secret.
      find_invite (proto s) (invites s) (invite b) = Some tg \<and> \<not> target_used (proto s) tg \<and>
      truthy (npub b) \<and> truthy (wooUrl b) \<and> truthy (storeName b) \<and>
      npubToHex (text_of (npub b)) = Inr h \<and> length h \<noteq> 64
      \<longrightarrow> step tk (PostRegister (Parsed b) secret) s
            = (s, Some (jsonResponse 400
                 (ErrorBody ''Invalid npub: decoded key is wrong length''))))"
proof (intro conjI allI impI)
  show "(\<exists>e. npubToHex ident = Inl e) \<longleftrightarrow>
      startsWith ident ''npub1'' \<and> \<not> set (drop 5 ident) \<subseteq> set CHARSET"
    by (rule npubToHex_fails_iff)
next
  fix p store tg h secret reply now and b :: register_body
  assume "find_invite p store (invite b) = Some tg \<and> \<not> target_used p tg \<and>
      truthy (npub b) \<and> truthy (wooUrl b) \<and> truthy (storeName b) \<and>
      npubToHex (text_of (npub b)) = Inr h \<and> length h \<noteq> 64"
  then show "post_register p store (Parsed b) secret reply now
      = (p, store, jsonResponse 400 (ErrorBody ''Invalid npub: decoded key is wrong length''), [])"
    by (simp add: post_register_def register_validate_def)
next
  fix tk tg h secret and s :: server and b :: register_body
  assume "find_invite (proto s) (invites s) (invite b) = Some tg \<and> \<not> target_used (proto s) tg \<and>
      truthy (npub b) \<and> truthy (wooUrl b) \<and> truthy (storeName b) \<and>
      npubToHex (text_of (npub b)) = Inr h \<and> length h \<noteq> 64"
  then show "step tk (PostRegister (Parsed b) secret) s
      = (s, Some (jsonResponse 400 (ErrorBody ''Invalid npub: decoded key is wrong length'')))"
    by (simp add: register_validate_def)
qed

text \<open>An identifier with characters outside the alphabet, and a registration whose
  identifier is eight hexadecimal characters.\<close>

theorem decode_failure_and_wrong_length_witness:
  "npubToHex ''npub1abc'' = Inl (Error ''Invalid npub character'') \<and>
   npubToHex ''79be667e'' = Inr ''79be667e'' \<and>
   post_register clean_prototype fresh_store
      (Parsed ((example_body ''Alice'') \<lparr>npub := Some ''79be667e''\<rparr>)) ''s1'' Acked 2000
     = (clean_prototype, fresh_store,
        jsonResponse 400 (ErrorBody ''Invalid npub: decoded key is wrong length''), []) \<and>
   step ''adm'' (PostRegister (Parsed ((example_body ''Alice'') \<lparr>npub := Some ''79be667e''\<rparr>)) ''s1'')
      (start_server fresh_store)
     = (start_server fresh_store,
        Some (jsonResponse 400 (ErrorBody ''Invalid npub: decoded key is wrong length'')))"
proof -
  let ?b = "(example_body ''Alice'') \<lparr>npub := Some ''79be667e''\<rparr>"
  let ?r = "\<lparr>label = ''pilot'', createdAt = 1000, used = False, usedBy = None, usedAt = None\<rparr>"
  have bad: "startsWith ''npub1abc'' ''npub1'' \<and> \<not> set (drop 5 ''npub1abc'') \<subseteq> set CHARSET"
    by (simp add: startsWith_def CHARSET_def)
  have short: "npubToHex ''79be667e'' = Inr ''79be667e''"
    by (simp add: npubToHex_def startsWith_def)
  have pre: "find_invite clean_prototype fresh_store (invite ?b) = Some (OwnRecord ?r) \<and>
     \<not> target_used clean_prototype (OwnRecord ?r) \<and>
     truthy (npub ?b) \<and> truthy (wooUrl ?b) \<and> truthy (storeName ?b) \<and>
     npubToHex (text_of (npub ?b)) = Inr ''79be667e'' \<and> length ''79be667e'' \<noteq> 64"
    by (simp add: fresh_store_def eval_defs)
  have state: "proto (start_server fresh_store) = clean_prototype"
    "invites (start_server fresh_store) = fresh_store"
    by (simp_all add: start_server_def)
  from decode_failure_and_wrong_length [of "''npub1abc''"] bad
  have "\<exists>e. npubToHex ''npub1abc'' = Inl e"
    by blast
  then have fail: "npubToHex ''npub1abc'' = Inl (Error ''Invalid npub character'')"
    by (auto simp: npubToHex_def startsWith_def decode_chars_outside CHARSET_def split: sum.splits)
  from decode_failure_and_wrong_length [of "''npub1abc''"] pre
  have one: "post_register clean_prototype fresh_store (Parsed ?b) ''s1'' Acked 2000
     = (clean_prototype, fresh_store,
        jsonResponse 400 (ErrorBody ''Invalid npub: decoded key is wrong length''), [])"
    by blast
  have pre_state: "find_invite (proto (start_server fresh_store)) (invites (start_server fresh_store))
         (invite ?b) = Some (OwnRecord ?r) \<and>
     \<not> target_used (proto (start_server fresh_store)) (OwnRecord ?r) \<and>
     truthy (npub ?b) \<and> truthy (wooUrl ?b) \<and> truthy (storeName ?b) \<and>
     npubToHex (text_of (npub ?b)) = Inr ''79be667e'' \<and> length ''79be667e'' \<noteq> 64"
    unfolding state by (rule pre)
  have "step ''adm'' (PostRegister (Parsed ?b) ''s1'') (start_server fresh_store)
     = (start_server fresh_store,
        Some (jsonResponse 400 (ErrorBody ''Invalid npub: decoded key is wrong length'')))"
    by (rule decode_failure_and_wrong_length
        [of "''npub1abc''", THEN conjunct2, THEN conjunct2, rule_format, OF pre_state])
  with fail short one show ?thesis
    by (simp del: step.simps)
qed

text \<open>
  C7, as amended. A registration whose invite is found and unused and that lacks \<open>npub\<close>,
  \<open>wooUrl\<close> or \<open>storeName\<close> (absent or empty) is answered with 400 and the one fixed
  message \<open>Missing required fields: npub, wooUrl, storeName\<close>; the state is unchanged and
  the listener is not called: served alone, and as an event of the server.
\<close>

theorem missing_field_rejected:
  assumes "find_invite p store (invite b) = Some tg" and "\<not> target_used p tg"
    and "missing_fields b \<noteq> []"
  shows "post_register p store (Parsed b) secret reply now
       = (p, store,
          jsonResponse 400 (ErrorBody ''Missing required fields: npub, wooUrl, storeName''), []) \<and>
     (proto s = p \<and> invites s = store \<longrightarrow>
        step tk (PostRegister (Parsed b) secret) s
          = (s, Some (jsonResponse 400
               (ErrorBody ''Missing required fields: npub, wooUrl, storeName''))))"
proof -
  from assms(3) have "\<not> (truthy (npub b) \<and> truthy (wooUrl b) \<and> truthy (storeName b))"
    by (auto simp: missing_fields_def split: if_splits)
  with assms(1,2) have "register_validate p store (Parsed b) secret
      = Inl (jsonResponse 400 (ErrorBody ''Missing required fields: npub, wooUrl, storeName''))"
    by (auto simp: register_validate_def)
  then show ?thesis
    by (simp add: post_register_def)
qed

text \<open>A registration without \<open>wooUrl\<close>.\<close>

theorem missing_field_rejected_witness:
  "missing_fields (body_without WooUrlField) = [WooUrlField] \<and>
   post_register clean_prototype fresh_store (Parsed (body_without WooUrlField)) ''s1'' Acked 2000
     = (clean_prototype, fresh_store,
        jsonResponse 400 (ErrorBody ''Missing required fields: npub, wooUrl, storeName''), []) \<and>
   step ''adm'' (PostRegister (Parsed (body_without WooUrlField)) ''s1'') (start_server fresh_store)
     = (start_server fresh_store,
        Some (jsonResponse 400 (ErrorBody ''Missing required fields: npub, wooUrl, storeName'')))"
proof -
  let ?r = "\<lparr>label = ''pilot'', createdAt = 1000, used = False, usedBy = None, usedAt = None\<rparr>"
  have found: "find_invite clean_prototype fresh_store (invite (body_without WooUrlField))
     = Some (OwnRecord ?r)"
    by (simp add: body_without_def fresh_store_def eval_defs)
  have unused: "\<not> target_used clean_prototype (OwnRecord ?r)"
    by (simp add: target_used_def)
  have missing: "missing_fields (body_without WooUrlField) = [WooUrlField]"
    by (simp add: missing_fields_def body_without_def eval_defs)
  then have some: "missing_fields (body_without WooUrlField) \<noteq> []"
    by simp
  have state: "proto (start_server fresh_store) = clean_prototype"
    "invites (start_server fresh_store) = fresh_store"
    by (simp_all add: start_server_def)
  from missing_field_rejected [OF found unused some, of "''s1''" Acked 2000 "start_server fresh_store" "''adm''"]
    missing state show ?thesis
    by (simp del: step.simps)
qed

text \<open>C7 as stated fails: the error does not name the first missing field. A body
  lacking only \<open>npub\<close> and a body lacking only \<open>storeName\<close> get the same answer.\<close>

theorem missing_field_error_names_no_field:
  "missing_fields (body_without NpubField) = [NpubField] \<and>
   missing_fields (body_without StoreNameField) = [StoreNameField] \<and>
   post_register clean_prototype fresh_store (Parsed (body_without NpubField)) ''s1'' Acked 2000
     = (clean_prototype, fresh_store,
        jsonResponse 400 (ErrorBody ''Missing required fields: npub, wooUrl, storeName''), []) \<and>
   post_register clean_prototype fresh_store (Parsed (body_without StoreNameField)) ''s1'' Acked 2000
     = (clean_prototype, fresh_store,
        jsonResponse 400 (ErrorBody ''Missing required fields: npub, wooUrl, storeName''), [])"
  by (simp add: missing_fields_def body_without_def fresh_store_def eval_defs)

text \<open>
  C8. \<open>POST /api/invites\<close> answers 401 \<open>Unauthorized\<close>, with the store unchanged and
  whatever the body, unless the \<open>Authorization\<close> header is exactly the admin bearer
  credential, the string \<open>Bearer \<close> followed by the token; with exactly that header the
  answer is not 401.
\<close>

theorem post_invites_needs_bearer_token:
  "(auth \<noteq> Some (''Bearer '' @ adminToken) \<longrightarrow>
      post_invites adminToken auth body token now store
        = (store, jsonResponse 401 (ErrorBody ''Unauthorized''))) \<and>
   (auth = Some (''Bearer '' @ adminToken) \<longrightarrow>
      status (snd (post_invites adminToken auth body token now store)) \<noteq> 401)"
  by (auto simp: post_invites_def authorized_def truthy_def split: parsed.splits)

text \<open>No header, and the bare token without \<open>Bearer \<close>, are refused; the exact credential
  gets past the check, here to the 400 of a body that is not JSON.\<close>

theorem post_invites_needs_bearer_token_witness:
  "post_invites ''adm'' None (Parsed (Some ''pilot'')) example_token 1000 fresh_store
     = (fresh_store, jsonResponse 401 (ErrorBody ''Unauthorized'')) \<and>
   post_invites ''adm'' (Some ''adm'') InvalidJSON example_token 1000 fresh_store
     = (fresh_store, jsonResponse 401 (ErrorBody ''Unauthorized'')) \<and>
   status (snd (post_invites ''adm'' (Some ''Bearer adm'') InvalidJSON example_token 1000 fresh_store))
     = 400"
proof -
  have a: "None \<noteq> Some (''Bearer '' @ ''adm'')" and b: "Some ''adm'' \<noteq> Some (''Bearer '' @ ''adm'')"
    by simp_all
  from post_invites_needs_bearer_token [of None "''adm''"] a
  have 1: "post_invites ''adm'' None (Parsed (Some ''pilot'')) example_token 1000 fresh_store
     = (fresh_store, jsonResponse 401 (ErrorBody ''Unauthorized''))"
    by blast
  from post_invites_needs_bearer_token [of "Some ''adm''" "''adm''"] b
  have 2: "post_invites ''adm'' (Some ''adm'') InvalidJSON example_token 1000 fresh_store
     = (fresh_store, jsonResponse 401 (ErrorBody ''Unauthorized''))"
    by blast
  have 3: "status (snd (post_invites ''adm'' (Some ''Bearer adm'') InvalidJSON example_token 1000 fresh_store))
     = 400"
    by (simp add: eval_defs)
  from 1 2 3 show ?thesis
    by simp
qed

text \<open>
  C9. An input without the \<open>npub1\<close> prefix is returned unchanged; every string of 64
  hexadecimal characters is such an input.
\<close>

theorem npubToHex_identity_without_prefix:
  "(\<not> startsWith ident ''npub1'' \<longrightarrow> npubToHex ident = Inr ident) \<and>
   (length ident = 64 \<and> (\<forall>c\<in>set ident. isHexChar c) \<longrightarrow> npubToHex ident = Inr ident)"
  using npubToHex_no_prefix hex_no_prefix by blast

text \<open>The generator key in hexadecimal form is returned as it is.\<close>

theorem npubToHex_identity_without_prefix_witness:
  "\<not> startsWith generator_hex ''npub1'' \<and> length generator_hex = 64 \<and>
   list_all isHexChar generator_hex \<and> npubToHex generator_hex = Inr generator_hex"
proof -
  have a: "\<not> startsWith generator_hex ''npub1''"
    by (simp add: startsWith_def generator_hex_def)
  have b: "length generator_hex = 64"
    by (simp add: generator_hex_def)
  have c: "list_all isHexChar generator_hex"
    by (simp add: generator_hex_def isHexChar_def)
  from npubToHex_identity_without_prefix [of generator_hex] a
  have "npubToHex generator_hex = Inr generator_hex"
    by blast
  with a b c show ?thesis
    by simp
qed

text \<open>
  C10, as amended. Both admin routes answer 401 exactly when the header value is not
  present, non-empty and equal to \<open>Bearer \<close> followed by the token. With \<open>LISTENER_TOKEN\<close>
  unset the token is the empty string, and the one value that passes the check is
  \<open>Bearer \<close> with the space at its end. No header line is delivered as that value, so
  both routes then answer 401 to every request, whatever its \<open>Authorization\<close> line.
\<close>

theorem admin_routes_check_bearer_token:
  "((snd (post_invites adminToken auth body token now store)
       = jsonResponse 401 (ErrorBody ''Unauthorized''))
      = (\<not> (auth \<noteq> None \<and> truthy auth \<and> auth = Some (''Bearer '' @ adminToken)))) \<and>
   ((get_invites adminToken auth store = jsonResponse 401 (ErrorBody ''Unauthorized''))
      = (\<not> (auth \<noteq> None \<and> truthy auth \<and> auth = Some (''Bearer '' @ adminToken)))) \<and>
   LISTENER_TOKEN None = [] \<and>
   authorized auth (LISTENER_TOKEN None) = (auth = Some ''Bearer '') \<and>
   step (LISTENER_TOKEN None) (GetInvites line) s
     = (s, Some (jsonResponse 401 (ErrorBody ''Unauthorized''))) \<and>
   step (LISTENER_TOKEN None) (PostInvites line body token now) s
     = (s, Some (jsonResponse 401 (ErrorBody ''Unauthorized'')))"
proof -
  have iff: "((snd (post_invites adminToken auth body token now store)
       = jsonResponse 401 (ErrorBody ''Unauthorized''))
      = (\<not> (auth \<noteq> None \<and> truthy auth \<and> auth = Some (''Bearer '' @ adminToken)))) \<and>
   ((get_invites adminToken auth store = jsonResponse 401 (ErrorBody ''Unauthorized''))
      = (\<not> (auth \<noteq> None \<and> truthy auth \<and> auth = Some (''Bearer '' @ adminToken))))"
    by (auto simp: post_invites_def get_invites_def authorized_def truthy_def text_of_def
        split: parsed.splits)
  have unset: "LISTENER_TOKEN None = []"
    by (simp add: LISTENER_TOKEN_def truthy_def)
  have only: "authorized a (LISTENER_TOKEN None) = (a = Some ''Bearer '')" for a
    by (auto simp: unset authorized_def truthy_def)
  have refused: "\<not> authorized (map_option header_value line) (LISTENER_TOKEN None)"
  proof
    assume "authorized (map_option header_value line) (LISTENER_TOKEN None)"
    then have "map_option header_value line = Some ''Bearer ''"
      by (simp only: only)
    then obtain raw where "header_value raw = ''Bearer ''"
      by (cases line) simp_all
    with header_value_not_bearer_space show False
      by blast
  qed
  then have "step (LISTENER_TOKEN None) (GetInvites line) s
       = (s, Some (jsonResponse 401 (ErrorBody ''Unauthorized'')))"
    and "step (LISTENER_TOKEN None) (PostInvites line body token now) s
       = (s, Some (jsonResponse 401 (ErrorBody ''Unauthorized'')))"
    by (simp_all add: get_invites_def post_invites_def)
  with iff unset only show ?thesis
    by (simp del: step.simps)
qed

text \<open>C10 as stated fails: with the token unset, the header line \<open>Bearer \<close> reaches the
  handlers as \<open>Bearer\<close>, and both routes answer 401.\<close>

theorem bearer_space_is_not_delivered:
  "header_value ''Bearer '' = ''Bearer'' \<and>
   step (LISTENER_TOKEN None) (GetInvites (Some ''Bearer '')) init_server
     = (init_server, Some (jsonResponse 401 (ErrorBody ''Unauthorized''))) \<and>
   step (LISTENER_TOKEN None)
       (PostInvites (Some ''Bearer '') (Parsed (Some ''pilot'')) example_token 1000) init_server
     = (init_server, Some (jsonResponse 401 (ErrorBody ''Unauthorized'')))"
  by (simp add: LISTENER_TOKEN_def eval_defs)

end
